theory Spec2Isabelle
  imports Main "HOL-Library.AList" "HOL-Library.Sublist" "HOL-Library.Multiset"
begin

section \<open>Strings and the library functions the generator calls\<close>

text \<open>
  A Python \<open>str\<close> is modelled as a \<open>string\<close> whose characters are the code points
  0..255 (the Latin-1 block): \<open>of_char c\<close> is the code point of \<open>c\<close>. The character
  classes below are those of CPython for these code points: \<open>str.isspace\<close> (used by
  \<open>str.strip()\<close> and \<open>str.split()\<close> without arguments), the class \<open>\w\<close> of \<open>re\<close> on
  \<open>str\<close> patterns (alphanumeric or underscore), and \<open>str.lower\<close>.
\<close>

definition isspace :: "char \<Rightarrow> bool" where
  "isspace c =
     (let n = (of_char c :: nat)
      in (9 \<le> n \<and> n \<le> 13) \<or> (28 \<le> n \<and> n \<le> 32) \<or> n = 133 \<or> n = 160)"

definition is_word_char :: "char \<Rightarrow> bool" where
  "is_word_char c =
     (let n = (of_char c :: nat)
      in (48 \<le> n \<and> n \<le> 57) \<or> (65 \<le> n \<and> n \<le> 90) \<or> n = 95 \<or> (97 \<le> n \<and> n \<le> 122)
         \<or> n = 170 \<or> n = 178 \<or> n = 179 \<or> n = 181 \<or> n = 185 \<or> n = 186
         \<or> (188 \<le> n \<and> n \<le> 190) \<or> (192 \<le> n \<and> n \<le> 214) \<or> (216 \<le> n \<and> n \<le> 246)
         \<or> 248 \<le> n)"

definition ascii_letter :: "char \<Rightarrow> bool" where
  \<comment> \<open>the character class \<open>[a-zA-Z]\<close>\<close>
  "ascii_letter c =
     (let n = (of_char c :: nat) in (97 \<le> n \<and> n \<le> 122) \<or> (65 \<le> n \<and> n \<le> 90))"

definition ascii_lower :: "char \<Rightarrow> bool" where
  "ascii_lower c = (let n = (of_char c :: nat) in 97 \<le> n \<and> n \<le> 122)"

definition lower_char :: "char \<Rightarrow> char" where
  "lower_char c =
     (let n = (of_char c :: nat)
      in if (65 \<le> n \<and> n \<le> 90) \<or> (192 \<le> n \<and> n \<le> 222 \<and> n \<noteq> 215) then char_of (n + 32) else c)"

definition str_lower :: "string \<Rightarrow> string" where
  \<comment> \<open>\<open>text.lower()\<close>\<close>
  "str_lower s = map lower_char s"

definition str_strip :: "string \<Rightarrow> string" where
  \<comment> \<open>\<open>s.strip()\<close>: leading and trailing whitespace removed\<close>
  "str_strip s = rev (dropWhile isspace (rev (dropWhile isspace s)))"

function str_split :: "string \<Rightarrow> string list" where
  \<comment> \<open>\<open>s.split()\<close>: the maximal runs of non-whitespace characters\<close>
  "str_split s =
     (let s' = dropWhile isspace s
      in if s' = [] then []
         else takeWhile (\<lambda>c. \<not> isspace c) s' # str_split (dropWhile (\<lambda>c. \<not> isspace c) s'))"
  by pat_completeness auto
termination
proof (relation "measure length")
  show "wf (measure length)" by simp
next
  fix s s' :: string
  assume a: "s' = dropWhile isspace s" "s' \<noteq> []"
  then obtain c cs where s': "s' = c # cs" by (meson neq_Nil_conv)
  have "\<not> isspace c"
    using a(1) s' hd_dropWhile [of isspace s] by (metis a(2) list.sel(1))
  then have "dropWhile (\<lambda>c. \<not> isspace c) s' = dropWhile (\<lambda>c. \<not> isspace c) cs"
    by (simp add: s')
  moreover have "length (dropWhile (\<lambda>c. \<not> isspace c) cs) \<le> length cs"
    by (rule length_dropWhile_le)
  moreover have "length s' \<le> length s"
    unfolding a(1) by (rule length_dropWhile_le)
  ultimately show "(dropWhile (\<lambda>c. \<not> isspace c) s', s) \<in> measure length"
    by (simp add: s')
qed

definition is_delim :: "char \<Rightarrow> bool" where
  \<comment> \<open>the character class \<open>[.!?]\<close>\<close>
  "is_delim c = (c = CHR ''.'' \<or> c = CHR ''!'' \<or> c = CHR ''?'')"

function re_split :: "string \<Rightarrow> string list" where
  \<comment> \<open>\<open>re.split(r'[.!?]+', s)\<close>: the pieces between the maximal runs of delimiters,
      empty pieces included; one piece more than there are runs\<close>
  "re_split s =
     (let rest = dropWhile (\<lambda>c. \<not> is_delim c) s
      in if rest = [] then [takeWhile (\<lambda>c. \<not> is_delim c) s]
         else takeWhile (\<lambda>c. \<not> is_delim c) s # re_split (dropWhile is_delim rest))"
  by pat_completeness auto
termination
proof (relation "measure length")
  show "wf (measure length)" by simp
next
  fix s rest :: string
  assume a: "rest = dropWhile (\<lambda>c. \<not> is_delim c) s" "rest \<noteq> []"
  then obtain c cs where r: "rest = c # cs" by (meson neq_Nil_conv)
  have "\<not> \<not> is_delim c"
    using a r hd_dropWhile [of "\<lambda>c. \<not> is_delim c" s] by (metis list.sel(1))
  then have "dropWhile is_delim rest = dropWhile is_delim cs"
    by (simp add: r)
  moreover have "length (dropWhile is_delim cs) \<le> length cs"
    by (rule length_dropWhile_le)
  moreover have "length rest \<le> length s"
    unfolding a(1) by (rule length_dropWhile_le)
  ultimately show "(dropWhile is_delim rest, s) \<in> measure length"
    by (simp add: r)
qed

text \<open>
  \<open>re.findall(r'\b[a-zA-Z]{3,}\b', s)\<close>. \<open>word_boundary s p\<close> is the assertion \<open>\b\<close> at
  position \<open>p\<close>: exactly one of the characters before and at \<open>p\<close> is a word character.
  \<open>match_word_at s p\<close> is the length of the match that starts at \<open>p\<close>, if any: the
  repetition is greedy and gives characters back one at a time, down to three, until
  the closing \<open>\b\<close> holds. \<open>findall_from\<close> scans from left to right and resumes after
  each match, so matches do not overlap.
\<close>

definition word_boundary :: "string \<Rightarrow> nat \<Rightarrow> bool" where
  "word_boundary s p =
     ((0 < p \<and> is_word_char (s ! (p - 1))) \<noteq> (p < length s \<and> is_word_char (s ! p)))"

definition match_word_at :: "string \<Rightarrow> nat \<Rightarrow> nat option" where
  "match_word_at s p =
     (if word_boundary s p then
        (let k = length (takeWhile ascii_letter (drop p s))
         in case filter (\<lambda>n. word_boundary s (p + n)) (rev [3..<Suc k]) of
              [] \<Rightarrow> None
            | n # _ \<Rightarrow> Some n)
      else None)"

function findall_from :: "string \<Rightarrow> nat \<Rightarrow> string list" where
  "findall_from s p =
     (if length s < p then []
      else case match_word_at s p of
             Some n \<Rightarrow> take n (drop p s) # findall_from s (p + n)
           | None \<Rightarrow> findall_from s (Suc p))"
  by pat_completeness auto
termination
proof (relation "measure (\<lambda>(s, p). Suc (length s) - p)")
  show "wf (measure (\<lambda>(s, p). Suc (length s) - p))" by simp
next
  fix s :: string and p :: nat
  assume "\<not> length s < p"
  then show "((s, Suc p), (s, p)) \<in> measure (\<lambda>(s, p). Suc (length s) - p)" by simp
next
  fix s :: string and p n :: nat
  assume le: "\<not> length s < p" and m: "match_word_at s p = Some n"
  let ?k = "length (takeWhile ascii_letter (drop p s))"
  from m obtain ns where "filter (\<lambda>n. word_boundary s (p + n)) (rev [3..<Suc ?k]) = n # ns"
    by (auto simp: match_word_at_def Let_def split: if_splits list.splits)
  then have "n \<in> set (filter (\<lambda>n. word_boundary s (p + n)) (rev [3..<Suc ?k]))"
    by simp
  then have "3 \<le> n" by auto
  with le show "((s, p + n), (s, p)) \<in> measure (\<lambda>(s, p). Suc (length s) - p)" by simp
qed

definition re_findall :: "string \<Rightarrow> string list" where
  "re_findall s = findall_from s 0"

declare str_split.simps [simp del] re_split.simps [simp del] findall_from.simps [simp del]

text \<open>
  \<open>str(n)\<close> for a non-negative integer, and \<open>template.format(arg)\<close> for a template with
  one replacement field \<open>{}\<close> and no other brace (all the templates of the generator are
  of this kind): the field is replaced by the argument.
\<close>

fun str_nat :: "nat \<Rightarrow> string" where
  "str_nat n = (if n < 10 then [char_of (48 + n)] else str_nat (n div 10) @ [char_of (48 + n mod 10)])"

declare str_nat.simps [simp del]

fun format_str :: "string \<Rightarrow> string \<Rightarrow> string" where
  "format_str [] arg = []"
| "format_str [c] arg = [c]"
| "format_str (c # d # cs) arg =
     (if c = CHR ''{'' \<and> d = CHR ''}'' then arg @ cs else c # format_str (d # cs) arg)"

section \<open>Errors and the source of randomness\<close>

datatype error = IndexError | ValueError

text \<open>
  The state of the module \<open>random\<close> is the sequence of the draws still to come; a draw
  below \<open>n\<close> (\<open>_randbelow(n)\<close>) is the next element reduced modulo \<open>n\<close>, so that every
  run of the generator is the run on some sequence. \<open>random.choice(seq)\<close> raises
  IndexError on an empty sequence and is \<open>seq[_randbelow(len(seq))]\<close> otherwise.
  \<open>random.shuffle(x)\<close> is CPython's loop
  \<^verbatim>\<open>for i in reversed(range(1, len(x))): j = randbelow(i + 1); x[i], x[j] = x[j], x[i]\<close>.
\<close>

type_synonym rng = "nat \<Rightarrow> nat"

definition randbelow :: "nat \<Rightarrow> rng \<Rightarrow> nat \<times> rng" where
  "randbelow n g = (g 0 mod n, \<lambda>k. g (Suc k))"

definition random_choice :: "'a list \<Rightarrow> rng \<Rightarrow> error + ('a \<times> rng)" where
  "random_choice seq g =
     (if seq = [] then Inl IndexError
      else (let (j, g') = randbelow (length seq) g in Inr (seq ! j, g')))"

fun shuffle_loop :: "nat \<Rightarrow> 'a list \<Rightarrow> rng \<Rightarrow> 'a list \<times> rng" where
  "shuffle_loop 0 x g = (x, g)"
| "shuffle_loop (Suc i') x g =
     (let i = Suc i';
          (j, g') = randbelow (i + 1) g
      in shuffle_loop i' (x[i := x ! j, j := x ! i]) g')"

definition random_shuffle :: "'a list \<Rightarrow> rng \<Rightarrow> 'a list \<times> rng" where
  "random_shuffle x g = shuffle_loop (length x - 1) x g"

fun list_index :: "'a list \<Rightarrow> 'a \<Rightarrow> error + nat" where
  \<comment> \<open>\<open>xs.index(v)\<close>: the first position of \<open>v\<close>, ValueError when there is none\<close>
  "list_index [] v = Inl ValueError"
| "list_index (x # xs) v =
     (if x = v then Inr 0
      else case list_index xs v of Inl e \<Rightarrow> Inl e | Inr k \<Rightarrow> Inr (Suc k))"

definition getitem :: "'a list \<Rightarrow> nat \<Rightarrow> error + 'a" where
  \<comment> \<open>\<open>xs[i]\<close> for a non-negative index\<close>
  "getitem xs i = (if i < length xs then Inr (xs ! i) else Inl IndexError)"

definition py_chr :: "nat \<Rightarrow> string" where
  \<comment> \<open>\<open>chr(n)\<close>, for a code point below 256\<close>
  "py_chr n = [char_of n]"

section \<open>QuizGenerator\<close>

definition question_starters :: "string list" where
  "question_starters =
     [''What is the significance of'',
      ''How does'',
      ''Why is'',
      ''What are the main characteristics of'',
      ''Explain the relationship between'',
      ''What factors contribute to'',
      ''How can we understand'',
      ''What role does'']"

definition essay_prompts :: "string list" where
  "essay_prompts =
     [''Analyze and discuss the key concepts presented in the text regarding {}. Provide specific examples and explain their significance.'',
      ''Compare and contrast different aspects of {} mentioned in the document. How do these elements relate to each other?'',
      ''Evaluate the importance of {} in the context provided. What are the potential implications or consequences?'',
      ''Describe the main themes related to {} and explain how they connect to broader concepts or real-world applications.'',
      ''Critically examine {} as presented in the text. What questions or areas for further research does this raise?'']"

subsection \<open>extract_key_terms\<close>

definition common_words :: "string list" where
  "common_words =
     [''the'', ''a'', ''an'', ''and'', ''or'', ''but'', ''in'', ''on'', ''at'', ''to'', ''for'',
      ''of'', ''with'', ''by'', ''is'', ''are'', ''was'', ''were'', ''be'', ''been'', ''being'',
      ''have'', ''has'', ''had'', ''do'', ''does'', ''did'', ''will'', ''would'', ''could'',
      ''should'', ''may'', ''might'', ''must'', ''can'', ''this'', ''that'', ''these'',
      ''those'', ''i'', ''you'', ''he'', ''she'', ''it'', ''we'', ''they'', ''me'', ''him'',
      ''her'', ''us'', ''them'', ''my'', ''your'', ''his'', ''her'', ''its'', ''our'', ''their'']"

text \<open>
  The dictionary \<open>word_freq\<close> keeps its keys in the order of their first insertion, and
  \<open>items()\<close> lists them in that order: it is an association list, and
  \<open>AList.update\<close> overwrites a key in place and appends a new one at the end.
\<close>

definition count_word :: "(string \<times> nat) list \<Rightarrow> string \<Rightarrow> (string \<times> nat) list" where
  \<comment> \<open>the body of the loop: \<open>if word not in common_words: word_freq[word] = word_freq.get(word, 0) + 1\<close>\<close>
  "count_word word_freq word =
     (if word \<notin> set common_words
      then AList.update word ((case map_of word_freq word of None \<Rightarrow> 0 | Some f \<Rightarrow> f) + 1) word_freq
      else word_freq)"

definition count_words :: "string list \<Rightarrow> (string \<times> nat) list" where
  "count_words words = foldl count_word [] words"

definition select_key_terms :: "(string \<times> nat) list \<Rightarrow> string list" where
  \<comment> \<open>lines 50 to 57: the terms seen at least twice, filled up to ten with terms seen once,
      cut at fifteen\<close>
  "select_key_terms word_freq =
     (let key_terms = map fst (filter (\<lambda>(word, freq). freq \<ge> 2) word_freq);
          key_terms =
            (if length key_terms < 10 then
               (let single_terms = map fst (filter (\<lambda>(word, freq). freq = 1) word_freq)
                in key_terms @ take (10 - length key_terms) single_terms)
             else key_terms)
      in take 15 key_terms)"

definition extract_key_terms :: "string \<Rightarrow> string list" where
  \<comment> \<open>the list \<open>sentences\<close> of line 40 is computed and never read; it is left out\<close>
  "extract_key_terms text =
     (let words = re_findall (str_lower text);
          word_freq = count_words words
      in select_key_terms word_freq)"

subsection \<open>extract_sentences\<close>

fun sentence_loop :: "string list \<Rightarrow> string list \<Rightarrow> string list" where
  "sentence_loop [] meaningful_sentences = meaningful_sentences"
| "sentence_loop (sentence # sentences) meaningful_sentences =
     (let sentence = str_strip sentence
      in if length (str_split sentence) \<ge> 5
         then sentence_loop sentences (meaningful_sentences @ [sentence])
         else sentence_loop sentences meaningful_sentences)"

definition extract_sentences :: "string \<Rightarrow> string list" where
  "extract_sentences text = sentence_loop (re_split text) []"

subsection \<open>generate_essay_questions\<close>

definition generic_essay :: "string" where
  "generic_essay = ''Analyze the main ideas presented in the provided text and discuss their significance. Support your analysis with specific examples from the material.''"

fun essay_loop :: "(nat \<times> string) list \<Rightarrow> string list \<Rightarrow> rng \<Rightarrow> error + (string list \<times> rng)" where
  \<comment> \<open>the \<open>for\<close> loop over \<open>enumerate(selected_terms[:2])\<close>\<close>
  "essay_loop [] essay_questions g = Inr (essay_questions, g)"
| "essay_loop ((i, term) # rest) essay_questions g =
     (case random_choice essay_prompts g of
        Inl e \<Rightarrow> Inl e
      | Inr (prompt_template, g') \<Rightarrow>
          (let question = format_str prompt_template term
           in essay_loop rest
                (essay_questions @ [''Essay Question '' @ str_nat (i + 1) @ '': '' @ question]) g'))"

function essay_fill :: "string list \<Rightarrow> string list" where
  \<comment> \<open>the \<open>while\<close> loop that fills the list up to two questions\<close>
  "essay_fill essay_questions =
     (if length essay_questions < 2 then
        (let generic_question =
               ''Essay Question '' @ str_nat (length essay_questions + 1) @ '': '' @ generic_essay
         in essay_fill (essay_questions @ [generic_question]))
      else essay_questions)"
  by pat_completeness auto
termination
  by (relation "measure (\<lambda>qs. 2 - length qs)") auto

declare essay_fill.simps [simp del]

definition generate_essay_questions ::
  "string \<Rightarrow> string list \<Rightarrow> rng \<Rightarrow> error + (string list \<times> rng)" where
  "generate_essay_questions text key_terms g =
     (let selected_terms = (if length key_terms \<ge> 3 then take 3 key_terms else key_terms)
      in case essay_loop (enumerate 0 (take 2 selected_terms)) [] g of
           Inl e \<Rightarrow> Inl e
         | Inr (essay_questions, g') \<Rightarrow> Inr (essay_fill essay_questions, g'))"

subsection \<open>generate_multiple_choice\<close>

record mc_question =
  question :: string
  options :: "string list"
  correct_answer :: string
  explanation :: string

definition distractor_term :: "string list \<Rightarrow> string \<Rightarrow> rng \<Rightarrow> error + (string \<times> rng)" where
  \<comment> \<open>\<open>random.choice(key_terms) if key_terms else placeholder\<close>\<close>
  "distractor_term key_terms placeholder g =
     (if key_terms \<noteq> [] then random_choice key_terms g else Inr (placeholder, g))"

definition term_question ::
  "nat \<Rightarrow> string list \<Rightarrow> string list \<Rightarrow> rng \<Rightarrow> error + (mc_question \<times> rng)" where
  \<comment> \<open>lines 98 to 124: the record built from \<open>key_terms[i]\<close>\<close>
  "term_question i key_terms sentences g =
     (case getitem key_terms i of Inl e \<Rightarrow> Inl e | Inr term \<Rightarrow>
      case (if i < length sentences then getitem sentences i else getitem sentences 0) of
        Inl e \<Rightarrow> Inl e | Inr context_sentence \<Rightarrow>
      case random_choice question_starters g of Inl e \<Rightarrow> Inl e | Inr (question_starter, g1) \<Rightarrow>
      (let question = question_starter @ '' '' @ term @ ''?'';
           correct_answer = ''Related to '' @ term @ '' as mentioned in the context''
       in case distractor_term key_terms ''general topic'' g1 of Inl e \<Rightarrow> Inl e | Inr (t1, g2) \<Rightarrow>
          case distractor_term key_terms ''another topic'' g2 of Inl e \<Rightarrow> Inl e | Inr (t2, g3) \<Rightarrow>
          case distractor_term key_terms ''different subject'' g3 of Inl e \<Rightarrow> Inl e | Inr (t3, g4) \<Rightarrow>
          (let options = [correct_answer,
                          ''Unrelated concept A about '' @ t1,
                          ''Unrelated concept B about '' @ t2,
                          ''Unrelated concept C about '' @ t3];
               (options, g5) = random_shuffle options g4
           in case list_index options correct_answer of Inl e \<Rightarrow> Inl e | Inr correct_index \<Rightarrow>
              Inr (\<lparr>question = question,
                    options = options,
                    correct_answer = py_chr (65 + correct_index),
                    explanation = ''This question focuses on understanding '' @ term @ '' in the given context.''\<rparr>,
                   g5))))"

definition generic_question :: "mc_question" where
  \<comment> \<open>lines 127 to 140\<close>
  "generic_question =
     \<lparr>question = ''What is a key concept discussed in the text?'',
      options = [''A main idea from the provided material'',
                 ''An unrelated concept'',
                 ''A different topic entirely'',
                 ''Something not mentioned in the text''],
      correct_answer = ''A'',
      explanation = ''This question tests comprehension of the main content.''\<rparr>"

fun mc_loop ::
  "nat list \<Rightarrow> string list \<Rightarrow> string list \<Rightarrow> mc_question list \<Rightarrow> rng
    \<Rightarrow> error + (mc_question list \<times> rng)" where
  \<comment> \<open>the loop \<open>for i in range(3)\<close>, over the indices still to come\<close>
  "mc_loop [] key_terms sentences mc_questions g = Inr (mc_questions, g)"
| "mc_loop (i # rest) key_terms sentences mc_questions g =
     (if i < length key_terms \<and> i < length sentences then
        (case term_question i key_terms sentences g of
           Inl e \<Rightarrow> Inl e
         | Inr (q, g') \<Rightarrow> mc_loop rest key_terms sentences (mc_questions @ [q]) g')
      else mc_loop rest key_terms sentences (mc_questions @ [generic_question]) g)"

definition generate_multiple_choice ::
  "string \<Rightarrow> string list \<Rightarrow> string list \<Rightarrow> rng \<Rightarrow> error + (mc_question list \<times> rng)" where
  "generate_multiple_choice text key_terms sentences g = mc_loop [0..<3] key_terms sentences [] g"

subsection \<open>generate_content\<close>

definition generate_content ::
  "string \<Rightarrow> rng \<Rightarrow> error + ((string list \<times> mc_question list) \<times> rng)" where
  "generate_content input_text g =
     (if str_strip input_text = [] then Inr (([], []), g)
      else
        (let key_terms = extract_key_terms input_text;
             sentences = extract_sentences input_text
         in case generate_essay_questions input_text key_terms g of
              Inl e \<Rightarrow> Inl e
            | Inr (essay_questions, g1) \<Rightarrow>
                (case generate_multiple_choice input_text key_terms sentences g1 of
                   Inl e \<Rightarrow> Inl e
                 | Inr (mc_questions, g2) \<Rightarrow> Inr ((essay_questions, mc_questions), g2))))"

section \<open>Notions of the specification\<close>

text \<open>
  The words that are counted: the matches of the word pattern in the lower-cased text
  that are no stopwords, in their order of occurrence. The observed frequency of a word
  is the number of its occurrences among them; the discovery order lists each word once,
  at its first occurrence, and \<open>first_seen\<close> is the position of that first occurrence.
\<close>

definition candidate_words :: "string \<Rightarrow> string list" where
  "candidate_words text = filter (\<lambda>w. w \<notin> set common_words) (re_findall (str_lower text))"

definition frequency :: "string list \<Rightarrow> string \<Rightarrow> nat" where
  "frequency ws w = count_list ws w"

fun discovery_order :: "'a list \<Rightarrow> 'a list" where
  "discovery_order [] = []"
| "discovery_order (w # ws) = w # removeAll w (discovery_order ws)"

definition first_seen :: "'a list \<Rightarrow> 'a \<Rightarrow> nat" where
  "first_seen ws w = length (takeWhile (\<lambda>v. v \<noteq> w) ws)"

definition primary_terms :: "string list \<Rightarrow> string list" where
  \<comment> \<open>the words with frequency at least 2, in discovery order\<close>
  "primary_terms ws = filter (\<lambda>w. 2 \<le> frequency ws w) (discovery_order ws)"

definition single_pool :: "string list \<Rightarrow> string list" where
  \<comment> \<open>the words with frequency 1, in discovery order\<close>
  "single_pool ws = filter (\<lambda>w. frequency ws w = 1) (discovery_order ws)"

definition ranked_by_frequency :: "string list \<Rightarrow> string list \<Rightarrow> bool" where
  \<comment> \<open>descending frequency, ties broken by first occurrence\<close>
  "ranked_by_frequency ws terms =
     sorted_wrt (\<lambda>a b. frequency ws b < frequency ws a
                      \<or> (frequency ws a = frequency ws b \<and> first_seen ws a < first_seen ws b)) terms"

definition ranked_by_class :: "string list \<Rightarrow> string list \<Rightarrow> bool" where
  \<comment> \<open>the words seen at least twice before the words seen once, and first occurrence
      order inside each of the two classes\<close>
  "ranked_by_class ws terms =
     sorted_wrt (\<lambda>a b. (2 \<le> frequency ws a \<and> frequency ws b < 2)
                      \<or> ((2 \<le> frequency ws a) = (2 \<le> frequency ws b)
                          \<and> first_seen ws a < first_seen ws b)) terms"

text \<open>
  The position a correct-answer letter stands for (\<open>A\<close> is 0), and the text that
  is meant to be the correct answer of the question with index \<open>i\<close>: the sentence about
  the term where the question is built from a term, the first generic option otherwise.
\<close>

definition letter_index :: "string \<Rightarrow> nat" where
  "letter_index letter = of_char (hd letter) - of_char CHR ''A''"

definition intended_answer :: "string list \<Rightarrow> string list \<Rightarrow> nat \<Rightarrow> string" where
  "intended_answer key_terms sentences i =
     (if i < length key_terms \<and> i < length sentences
      then ''Related to '' @ key_terms ! i @ '' as mentioned in the context''
      else ''A main idea from the provided material'')"

section \<open>Properties of the library functions\<close>

lemma sentence_loop_filter:
  "sentence_loop sentences acc =
     acc @ filter (\<lambda>s. 5 \<le> length (str_split s)) (map str_strip sentences)"
  by (induction sentences arbitrary: acc) (simp_all add: Let_def)

lemma re_split_last:
  assumes "dropWhile (\<lambda>c. \<not> is_delim c) s = []"
  shows "re_split s = [takeWhile (\<lambda>c. \<not> is_delim c) s]"
  by (subst re_split.simps) (simp only: Let_def assms if_True simp_thms)

lemma re_split_more:
  assumes "dropWhile (\<lambda>c. \<not> is_delim c) s \<noteq> []"
  shows "re_split s = takeWhile (\<lambda>c. \<not> is_delim c) s
           # re_split (dropWhile is_delim (dropWhile (\<lambda>c. \<not> is_delim c) s))"
  by (subst re_split.simps) (simp only: Let_def assms if_False)

lemma str_split_none:
  assumes "dropWhile isspace s = []"
  shows "str_split s = []"
  by (subst str_split.simps) (simp only: Let_def assms if_True simp_thms)

lemma str_split_more:
  assumes "dropWhile isspace s \<noteq> []"
  shows "str_split s = takeWhile (\<lambda>c. \<not> isspace c) (dropWhile isspace s)
           # str_split (dropWhile (\<lambda>c. \<not> isspace c) (dropWhile isspace s))"
  by (subst str_split.simps) (simp only: Let_def assms if_False)

lemma re_split_no_delim: "f \<in> set (re_split s) \<Longrightarrow> c \<in> set f \<Longrightarrow> \<not> is_delim c"
proof (induction s arbitrary: f rule: re_split.induct)
  case (1 s)
  show ?case
  proof (cases "dropWhile (\<lambda>c. \<not> is_delim c) s = []")
    case True
    with "1.prems" have "f = takeWhile (\<lambda>c. \<not> is_delim c) s"
      by (simp only: re_split_last [OF True] list.set singleton_iff)
    with "1.prems"(2) show ?thesis by (auto dest: set_takeWhileD)
  next
    case False
    with "1.prems"(1) have "f = takeWhile (\<lambda>c. \<not> is_delim c) s
        \<or> f \<in> set (re_split (dropWhile is_delim (dropWhile (\<lambda>c. \<not> is_delim c) s)))"
      by (simp only: re_split_more [OF False] set_simps insert_iff)
    then show ?thesis
    proof
      assume "f = takeWhile (\<lambda>c. \<not> is_delim c) s"
      with "1.prems"(2) show ?thesis by (auto dest: set_takeWhileD)
    next
      assume "f \<in> set (re_split (dropWhile is_delim (dropWhile (\<lambda>c. \<not> is_delim c) s)))"
      with "1.IH" [OF refl False] "1.prems"(2) show ?thesis by blast
    qed
  qed
qed

lemma str_split_words:
  "w \<in> set (str_split s) \<Longrightarrow> w \<noteq> [] \<and> (\<forall>c \<in> set w. \<not> isspace c)"
proof (induction s arbitrary: w rule: str_split.induct)
  case (1 s)
  let ?s' = "dropWhile isspace s"
  show ?case
  proof (cases "?s' = []")
    case True
    with "1.prems" show ?thesis by (simp only: str_split_none [OF True] list.set empty_iff)
  next
    case False
    then have hd: "\<not> isspace (hd ?s')" by (rule hd_dropWhile)
    from False "1.prems" have "w = takeWhile (\<lambda>c. \<not> isspace c) ?s'
        \<or> w \<in> set (str_split (dropWhile (\<lambda>c. \<not> isspace c) ?s'))"
      by (simp only: str_split_more [OF False] set_simps insert_iff)
    then show ?thesis
    proof
      assume w: "w = takeWhile (\<lambda>c. \<not> isspace c) ?s'"
      from False hd have "w \<noteq> []" unfolding w by (cases ?s') auto
      then show ?thesis unfolding w by (auto dest: set_takeWhileD)
    next
      assume "w \<in> set (str_split (dropWhile (\<lambda>c. \<not> isspace c) ?s'))"
      with "1.IH" [OF refl False] show ?thesis by blast
    qed
  qed
qed

lemma filter_takeWhile_same: "filter P (takeWhile P xs) = takeWhile P xs"
  by (induction xs) simp_all

lemma filter_dropWhile_not: "filter P (dropWhile (\<lambda>x. \<not> P x) xs) = filter P xs"
  by (induction xs) simp_all

lemma filter_split_run:
  "filter P xs = takeWhile P xs @ filter P (dropWhile (\<lambda>x. \<not> P x) (dropWhile P xs))"
proof -
  have "filter P xs = filter P (takeWhile P xs @ dropWhile P xs)" by simp
  also have "\<dots> = takeWhile P xs @ filter P (dropWhile P xs)"
    by (simp only: filter_append filter_takeWhile_same)
  finally show ?thesis by (simp only: filter_dropWhile_not)
qed

lemma concat_re_split: "concat (re_split s) = filter (\<lambda>c. \<not> is_delim c) s"
proof (induction s rule: re_split.induct)
  case (1 s)
  let ?P = "\<lambda>c. \<not> is_delim c"
  have split: "filter ?P s = takeWhile ?P s @ filter ?P (dropWhile is_delim (dropWhile ?P s))"
    using filter_split_run [of ?P s] by simp
  show ?case
  proof (cases "dropWhile ?P s = []")
    case True
    with split show ?thesis by (simp add: re_split_last [OF True])
  next
    case False
    from "1.IH" [OF refl False] split show ?thesis
      by (simp add: re_split_more [OF False])
  qed
qed

lemma concat_str_split: "concat (str_split s) = filter (\<lambda>c. \<not> isspace c) s"
proof (induction s rule: str_split.induct)
  case (1 s)
  let ?P = "\<lambda>c. \<not> isspace c"
  let ?s' = "dropWhile isspace s"
  have s': "filter ?P s = filter ?P ?s'"
    using filter_dropWhile_not [of ?P s] by simp
  show ?case
  proof (cases "?s' = []")
    case True
    with s' show ?thesis by (simp add: str_split_none [OF True])
  next
    case False
    have "filter ?P ?s' = takeWhile ?P ?s' @ filter ?P (dropWhile ?P ?s')"
      using filter_split_run [of ?P ?s'] filter_dropWhile_not [of ?P "dropWhile ?P ?s'"]
      by simp
    with "1.IH" [OF refl False] s' show ?thesis
      by (simp add: str_split_more [OF False])
  qed
qed

lemma last_dropWhile_nonempty:
  assumes "dropWhile P xs \<noteq> []"
  shows "last (dropWhile P xs) = last xs"
proof -
  have "last xs = last (takeWhile P xs @ dropWhile P xs)" by simp
  also have "\<dots> = last (dropWhile P xs)" using assms by (rule last_appendR)
  finally show ?thesis by simp
qed

lemma str_strip_ends:
  assumes "str_strip s \<noteq> []"
  shows "\<not> isspace (hd (str_strip s))" and "\<not> isspace (last (str_strip s))"
proof -
  let ?a = "dropWhile isspace s"
  let ?b = "dropWhile isspace (rev ?a)"
  have strip: "str_strip s = rev ?b" by (simp only: str_strip_def)
  from assms have b: "?b \<noteq> []" by (simp only: strip rev_is_Nil_conv not_False_eq_True)
  then have hb: "\<not> isspace (hd ?b)" by (rule hd_dropWhile)
  have "last (str_strip s) = hd ?b"
    using b by (simp only: strip last_rev)
  with hb show "\<not> isspace (last (str_strip s))" by simp
  have a: "?a \<noteq> []"
  proof
    assume "?a = []"
    then have "?b = []" by (simp only: rev.simps dropWhile.simps)
    with b show False by contradiction
  qed
  then have ha: "\<not> isspace (hd ?a)" by (rule hd_dropWhile)
  have "hd (str_strip s) = last ?b" using b by (simp only: strip hd_rev)
  also have "\<dots> = last (rev ?a)" using b by (rule last_dropWhile_nonempty)
  also have "\<dots> = hd ?a" using a by (simp only: last_rev)
  finally show "\<not> isspace (hd (str_strip s))" using ha by simp
qed

section \<open>Sentence extraction\<close>

text \<open>
  Claim C8. For every text, \<open>extract_sentences\<close> returns the subsequence, in the
  original order and casing, of the trimmed fragments between the runs of \<open>.\<close>, \<open>!\<close>
  and \<open>?\<close>, keeping a fragment exactly when it has at least five whitespace-delimited
  words; so no returned sentence has fewer than five words.
\<close>

theorem extract_sentences_filter:
  "extract_sentences text = filter (\<lambda>s. 5 \<le> length (str_split s)) (map str_strip (re_split text))
   \<and> subseq (extract_sentences text) (map str_strip (re_split text))
   \<and> (\<forall>s \<in> set (extract_sentences text). 5 \<le> length (str_split s))"
  by (simp add: extract_sentences_def sentence_loop_filter)

text \<open>
  Witness: in a text of three fragments only the one of seven words is kept, trimmed
  and in its original casing; a text whose fragments are all short gives the empty list.
\<close>

theorem extract_sentences_filter_witness:
  "extract_sentences ''Hello there. How are you doing TODAY my friend?! Yes''
     = [''How are you doing TODAY my friend'']
   \<and> 5 \<le> length (str_split ''How are you doing TODAY my friend'')
   \<and> subseq [''How are you doing TODAY my friend'']
        (map str_strip (re_split ''Hello there. How are you doing TODAY my friend?! Yes''))
   \<and> extract_sentences ''Too short. Also short!'' = []"
proof -
  let ?t = "''Hello there. How are you doing TODAY my friend?! Yes''"
  have a: "extract_sentences ?t = [''How are you doing TODAY my friend'']"
    by code_simp
  have b: "extract_sentences ''Too short. Also short!'' = []"
    by code_simp
  from extract_sentences_filter [of ?t]
  have "\<forall>s \<in> set (extract_sentences ?t). 5 \<le> length (str_split s)"
    and "subseq (extract_sentences ?t) (map str_strip (re_split ?t))"
    by blast+
  with a b show ?thesis by simp
qed

section \<open>Key terms\<close>

subsection \<open>The frequency table is the discovery order with the counts\<close>

lemma set_discovery_order: "set (discovery_order ws) = set ws"
  by (induction ws) auto

lemma distinct_discovery_order: "distinct (discovery_order ws)"
  by (induction ws) (auto simp: set_discovery_order distinct_removeAll)

lemma discovery_order_snoc:
  "discovery_order (ws @ [w]) = (if w \<in> set ws then discovery_order ws else discovery_order ws @ [w])"
proof (induction ws)
  case Nil
  show ?case by simp
next
  case (Cons v ws)
  have "w \<notin> set ws \<Longrightarrow> removeAll v (discovery_order ws) @ removeAll v [w]
          = (if w = v then removeAll v (discovery_order ws) else removeAll v (discovery_order ws) @ [w])"
    by simp
  with Cons show ?case by (auto simp: removeAll_append)
qed

lemma map_of_tabulate:
  "map_of (map (\<lambda>x. (x, f x)) ks) k = (if k \<in> set ks then Some (f k) else None)"
  by (induction ks) auto

lemma update_tabulate:
  "distinct ks \<Longrightarrow> AList.update k v (map (\<lambda>x. (x, f x)) ks) =
     (if k \<in> set ks then map (\<lambda>x. (x, if x = k then v else f x)) ks
      else map (\<lambda>x. (x, f x)) ks @ [(k, v)])"
  by (induction ks) auto

lemma count_words_tabulate:
  "count_words words =
     map (\<lambda>w. (w, count_list (filter (\<lambda>w. w \<notin> set common_words) words) w))
       (discovery_order (filter (\<lambda>w. w \<notin> set common_words) words))"
proof (induction words rule: rev_induct)
  case Nil
  show ?case by (simp add: count_words_def)
next
  case (snoc w words)
  let ?cs = "filter (\<lambda>w. w \<notin> set common_words) words"
  have step: "count_words (words @ [w]) = count_word (count_words words) w"
    by (simp add: count_words_def)
  show ?case
  proof (cases "w \<in> set common_words")
    case True
    with snoc step show ?thesis by (simp add: count_word_def)
  next
    case False
    then have cs: "filter (\<lambda>w. w \<notin> set common_words) (words @ [w]) = ?cs @ [w]" by simp
    show ?thesis
    proof (cases "w \<in> set ?cs")
      case True
      with False show ?thesis
        unfolding step cs snoc.IH count_word_def
        by (simp add: map_of_tabulate update_tabulate distinct_discovery_order
              discovery_order_snoc set_discovery_order)
    next
      case notin: False
      then have "count_list ?cs w = 0" by (simp add: count_list_0_iff)
      with notin False show ?thesis
        unfolding step cs snoc.IH count_word_def
        by (simp add: map_of_tabulate update_tabulate distinct_discovery_order
              discovery_order_snoc set_discovery_order)
    qed
  qed
qed

lemma select_key_terms_tabulate:
  "select_key_terms (map (\<lambda>w. (w, f w)) ds) =
     take 15 (filter (\<lambda>w. 2 \<le> f w) ds
              @ (if length (filter (\<lambda>w. 2 \<le> f w) ds) < 10
                 then take (10 - length (filter (\<lambda>w. 2 \<le> f w) ds)) (filter (\<lambda>w. f w = 1) ds)
                 else []))"
  by (simp add: select_key_terms_def Let_def filter_map comp_def)

lemma extract_key_terms_eq:
  "extract_key_terms text =
     take 15 (primary_terms (candidate_words text)
              @ (if length (primary_terms (candidate_words text)) < 10
                 then take (10 - length (primary_terms (candidate_words text)))
                        (single_pool (candidate_words text))
                 else []))"
  unfolding extract_key_terms_def Let_def count_words_tabulate select_key_terms_tabulate
  by (simp add: primary_terms_def single_pool_def candidate_words_def frequency_def)

lemma first_seen_Cons:
  "first_seen (w # ws) v = (if v = w then 0 else Suc (first_seen ws v))"
  by (auto simp: first_seen_def)

lemma sorted_discovery_order:
  "sorted_wrt (\<lambda>a b. first_seen ws a < first_seen ws b) (discovery_order ws)"
proof (induction ws)
  case Nil
  show ?case by simp
next
  case (Cons w ws)
  have "sorted_wrt (\<lambda>a b. first_seen ws a < first_seen ws b) (removeAll w (discovery_order ws))"
    using Cons by (simp add: removeAll_filter_not_eq sorted_wrt_filter)
  then have "sorted_wrt (\<lambda>a b. first_seen (w # ws) a < first_seen (w # ws) b)
               (removeAll w (discovery_order ws))"
    by (rule sorted_wrt_mono_rel [rotated]) (auto simp: first_seen_Cons)
  then show ?case by (auto simp: first_seen_Cons)
qed

lemma key_terms_ranked_by_class:
  "ranked_by_class ws
     (take n (primary_terms ws @ (if b then take k (single_pool ws) else [])))"
proof -
  let ?R = "\<lambda>a b. (2 \<le> frequency ws a \<and> frequency ws b < 2)
                      \<or> ((2 \<le> frequency ws a) = (2 \<le> frequency ws b)
                          \<and> first_seen ws a < first_seen ws b)"
  have fs: "sorted_wrt (\<lambda>a b. first_seen ws a < first_seen ws b) (filter Q (discovery_order ws))" for Q
    by (simp add: sorted_wrt_filter sorted_discovery_order)
  have p: "sorted_wrt ?R (primary_terms ws)"
    unfolding primary_terms_def
    by (rule sorted_wrt_mono_rel [OF _ fs]) auto
  have s: "sorted_wrt ?R (single_pool ws)"
    unfolding single_pool_def
    by (rule sorted_wrt_mono_rel [OF _ fs]) auto
  have ps: "\<forall>x \<in> set (primary_terms ws). \<forall>y \<in> set (take k (single_pool ws)). ?R x y"
    by (auto simp: primary_terms_def single_pool_def dest!: in_set_takeD)
  have "sorted_wrt ?R (primary_terms ws @ (if b then take k (single_pool ws) else []))"
    using p s ps by (simp add: sorted_wrt_append sorted_wrt_take)
  then show ?thesis
    unfolding ranked_by_class_def by (rule sorted_wrt_take)
qed

lemma distinct_key_terms:
  "distinct (take n (primary_terms ws @ (if b then take k (single_pool ws) else [])))"
proof -
  have "distinct (primary_terms ws @ take k (single_pool ws))"
    by (auto simp: primary_terms_def single_pool_def distinct_discovery_order dest!: in_set_takeD)
  moreover have "distinct (primary_terms ws)"
    by (simp add: primary_terms_def distinct_discovery_order)
  ultimately have "distinct (primary_terms ws @ (if b then take k (single_pool ws) else []))"
    by (cases b) simp_all
  then show ?thesis by (rule distinct_take)
qed

lemma set_key_terms:
  "set (take n (primary_terms ws @ (if b then take k (single_pool ws) else []))) \<subseteq> set ws"
  by (auto simp: primary_terms_def single_pool_def set_discovery_order dest!: in_set_takeD split: if_splits)

lemma match_word_at_Some:
  assumes "match_word_at s p = Some n"
  shows "3 \<le> n \<and> n \<le> length (takeWhile ascii_letter (drop p s))"
proof -
  let ?k = "length (takeWhile ascii_letter (drop p s))"
  from assms obtain ns where "filter (\<lambda>n. word_boundary s (p + n)) (rev [3..<Suc ?k]) = n # ns"
    by (auto simp: match_word_at_def Let_def split: if_splits list.splits)
  then have "n \<in> set (filter (\<lambda>n. word_boundary s (p + n)) (rev [3..<Suc ?k]))"
    by simp
  then show ?thesis by auto
qed

lemma match_word_letters:
  assumes "match_word_at s p = Some n"
  shows "length (take n (drop p s)) = n"
    and "set (take n (drop p s)) \<subseteq> {c \<in> set s. ascii_letter c}"
proof -
  let ?run = "takeWhile ascii_letter (drop p s)"
  from match_word_at_Some [OF assms] have n: "3 \<le> n" "n \<le> length ?run" by simp_all
  have "length ?run \<le> length (drop p s)" by (rule length_takeWhile_le)
  with n show "length (take n (drop p s)) = n" by simp
  have "take n (drop p s) = take n (?run @ dropWhile ascii_letter (drop p s))"
    by (simp only: takeWhile_dropWhile_id)
  also have "\<dots> = take n ?run" using n by (simp only: take_append diff_is_0_eq' take_0 append_Nil2)
  finally have "set (take n (drop p s)) \<subseteq> set ?run" by (simp only: set_take_subset)
  moreover have "set ?run \<subseteq> {c \<in> set s. ascii_letter c}"
    by (auto dest: set_takeWhileD in_set_dropD)
  ultimately show "set (take n (drop p s)) \<subseteq> {c \<in> set s. ascii_letter c}" by blast
qed

lemma findall_from_words:
  "w \<in> set (findall_from s p) \<Longrightarrow> 3 \<le> length w \<and> set w \<subseteq> {c \<in> set s. ascii_letter c}"
proof (induction s p rule: findall_from.induct)
  case (1 s p)
  show ?case
  proof (cases "length s < p")
    case True
    with "1.prems" show ?thesis by (subst (asm) findall_from.simps) simp
  next
    case le: False
    show ?thesis
    proof (cases "match_word_at s p")
      case None
      with le "1.prems" have "w \<in> set (findall_from s (Suc p))"
        by (subst (asm) findall_from.simps) simp
      with "1.IH"(1) [OF le None] show ?thesis .
    next
      case (Some n)
      with le "1.prems" have "w = take n (drop p s) \<or> w \<in> set (findall_from s (p + n))"
        by (subst (asm) findall_from.simps) simp
      then show ?thesis
      proof
        assume w: "w = take n (drop p s)"
        from match_word_at_Some [OF Some] match_word_letters [OF Some]
        show ?thesis unfolding w by simp
      next
        assume "w \<in> set (findall_from s (p + n))"
        with "1.IH"(2) [OF le Some] show ?thesis .
      qed
    qed
  qed
qed

lemma ascii_letter_lower_char:
  "ascii_letter (lower_char c) \<Longrightarrow> ascii_lower (lower_char c)"
  by (auto simp: ascii_letter_def ascii_lower_def lower_char_def Let_def split: if_splits)

lemma candidate_words_shape:
  assumes "w \<in> set (candidate_words text)"
  shows "w \<notin> set common_words" and "3 \<le> length w" and "\<forall>c \<in> set w. ascii_lower c"
proof -
  from assms show "w \<notin> set common_words" by (simp add: candidate_words_def)
  from assms have "w \<in> set (findall_from (str_lower text) 0)"
    by (simp add: candidate_words_def re_findall_def)
  from findall_from_words [OF this]
  have l: "3 \<le> length w" and s: "set w \<subseteq> {c \<in> set (str_lower text). ascii_letter c}" by simp_all
  show "3 \<le> length w" by (rule l)
  show "\<forall>c \<in> set w. ascii_lower c"
  proof
    fix c assume "c \<in> set w"
    with s have "c \<in> set (str_lower text)" "ascii_letter c" by auto
    then show "ascii_lower c" by (auto simp: str_lower_def ascii_letter_lower_char)
  qed
qed

subsection \<open>Selection\<close>

text \<open>
  Claim C4. For every text, the primary terms of \<open>extract_key_terms\<close> are exactly the
  counted (non-stopword) words of frequency at least 2, in discovery order; when there
  are fewer than 10 of them, words of frequency 1 are appended in discovery order until
  the list has 10 entries or no such word is left; the result is cut at 15 terms, and
  it is empty when no word is counted.
\<close>

theorem extract_key_terms_selection:
  "extract_key_terms text =
     take 15 (primary_terms (candidate_words text)
              @ (if length (primary_terms (candidate_words text)) < 10
                 then take (10 - length (primary_terms (candidate_words text)))
                        (single_pool (candidate_words text))
                 else []))
   \<and> set (primary_terms (candidate_words text))
       = {w \<in> set (candidate_words text). 2 \<le> frequency (candidate_words text) w}
   \<and> set (single_pool (candidate_words text))
       = {w \<in> set (candidate_words text). frequency (candidate_words text) w = 1}
   \<and> length (extract_key_terms text)
       = (if length (primary_terms (candidate_words text)) < 10
          then min 10 (length (primary_terms (candidate_words text))
                       + length (single_pool (candidate_words text)))
          else min 15 (length (primary_terms (candidate_words text))))
   \<and> (candidate_words text = [] \<longrightarrow> extract_key_terms text = [])"
proof -
  let ?ws = "candidate_words text"
  have a: "set (primary_terms ?ws) = {w \<in> set ?ws. 2 \<le> frequency ?ws w}"
    by (auto simp: primary_terms_def set_discovery_order)
  have b: "set (single_pool ?ws) = {w \<in> set ?ws. frequency ?ws w = 1}"
    by (auto simp: single_pool_def set_discovery_order)
  have c: "length (extract_key_terms text)
       = (if length (primary_terms ?ws) < 10
          then min 10 (length (primary_terms ?ws) + length (single_pool ?ws))
          else min 15 (length (primary_terms ?ws)))"
    unfolding extract_key_terms_eq by auto
  have d: "?ws = [] \<longrightarrow> extract_key_terms text = []"
    unfolding extract_key_terms_eq by (simp add: primary_terms_def single_pool_def)
  from extract_key_terms_eq a b c d show ?thesis by blast
qed

text \<open>
  Witness: two words seen twice and one seen once; and a text with stopwords and a
  number only, where no word is counted.
\<close>

theorem extract_key_terms_selection_witness:
  "extract_key_terms ''Cat cat dog. Dog emu''
     = [''cat'', ''dog'', ''emu'']
   \<and> primary_terms (candidate_words ''Cat cat dog. Dog emu'')
     = [''cat'', ''dog'']
   \<and> single_pool (candidate_words ''Cat cat dog. Dog emu'')
     = [''emu'']
   \<and> candidate_words ''The of 12'' = []
   \<and> extract_key_terms ''The of 12'' = []"
proof -
  let ?t = "''Cat cat dog. Dog emu''"
  have p: "primary_terms (candidate_words ?t) = [''cat'', ''dog'']" by code_simp
  have s: "single_pool (candidate_words ?t) = [''emu'']" by code_simp
  have e: "candidate_words ''The of 12'' = []" by code_simp
  from extract_key_terms_selection [of ?t]
  have "extract_key_terms ?t =
     take 15 (primary_terms (candidate_words ?t)
              @ (if length (primary_terms (candidate_words ?t)) < 10
                 then take (10 - length (primary_terms (candidate_words ?t)))
                        (single_pool (candidate_words ?t))
                 else []))" by blast
  then have k: "extract_key_terms ?t = [''cat'', ''dog'', ''emu'']"
    unfolding p s by simp
  from extract_key_terms_selection [of "''The of 12''"] e
  have "extract_key_terms ''The of 12'' = []" by blast
  with p s e k show ?thesis by blast
qed

subsection \<open>Order\<close>

text \<open>
  Claim C3, as stated: the list is ordered by descending frequency, ties broken by
  first occurrence. It fails: \<open>aaa\<close> is seen twice and \<open>bbb\<close> three times, and \<open>aaa\<close>
  comes first.
\<close>

theorem extract_key_terms_not_ranked:
  "extract_key_terms ''aaa aaa bbb bbb bbb'' = [''aaa'', ''bbb'']
   \<and> frequency (candidate_words ''aaa aaa bbb bbb bbb'') ''aaa'' = 2
   \<and> frequency (candidate_words ''aaa aaa bbb bbb bbb'') ''bbb'' = 3
   \<and> \<not> ranked_by_frequency (candidate_words ''aaa aaa bbb bbb bbb'')
         (extract_key_terms ''aaa aaa bbb bbb bbb'')"
  by code_simp

text \<open>
  Claim C3, amended. For every text, the list returned by \<open>extract_key_terms\<close> is
  ordered by frequency class: every term of frequency at least 2 comes before every term
  of frequency 1, and inside each class the terms are in first-seen order.
\<close>

theorem extract_key_terms_ranked_by_class:
  "ranked_by_class (candidate_words text) (extract_key_terms text)"
  unfolding extract_key_terms_eq by (rule key_terms_ranked_by_class)

theorem extract_key_terms_ranked_by_class_witness:
  "extract_key_terms ''aaa aaa bbb ccc'' = [''aaa'', ''bbb'', ''ccc'']
   \<and> ranked_by_class (candidate_words ''aaa aaa bbb ccc'') [''aaa'', ''bbb'', ''ccc'']"
proof -
  have k: "extract_key_terms ''aaa aaa bbb ccc'' = [''aaa'', ''bbb'', ''ccc'']" by code_simp
  from extract_key_terms_ranked_by_class [of "''aaa aaa bbb ccc''"] k
  show ?thesis by simp
qed

subsection \<open>Shape of the terms\<close>

text \<open>
  Claim C5. For every text, the list returned by \<open>extract_key_terms\<close> has at most 15
  entries, no duplicates and no stopword, and every entry is made of at least three
  lower-case letters \<open>a\<close> to \<open>z\<close>.
\<close>

theorem extract_key_terms_shape:
  "length (extract_key_terms text) \<le> 15
   \<and> distinct (extract_key_terms text)
   \<and> (\<forall>w \<in> set (extract_key_terms text).
         w \<notin> set common_words \<and> 3 \<le> length w \<and> (\<forall>c \<in> set w. ascii_lower c))"
proof -
  have "set (extract_key_terms text) \<subseteq> set (candidate_words text)"
    unfolding extract_key_terms_eq by (rule set_key_terms)
  then have "\<forall>w \<in> set (extract_key_terms text).
         w \<notin> set common_words \<and> 3 \<le> length w \<and> (\<forall>c \<in> set w. ascii_lower c)"
    using candidate_words_shape by blast
  moreover have "distinct (extract_key_terms text)"
    unfolding extract_key_terms_eq by (rule distinct_key_terms)
  moreover have "length (extract_key_terms text) \<le> 15"
    unfolding extract_key_terms_eq by simp
  ultimately show ?thesis by blast
qed

theorem extract_key_terms_shape_witness:
  "extract_key_terms ''A CAT saw the cat'' = [''cat'', ''saw'']
   \<and> length [''cat'', ''saw''] \<le> 15
   \<and> distinct [''cat'', ''saw'']
   \<and> ''cat'' \<notin> set common_words \<and> 3 \<le> length ''cat'' \<and> ascii_lower CHR ''c''"
proof -
  let ?t = "''A CAT saw the cat''"
  have k: "extract_key_terms ?t = [''cat'', ''saw'']" by code_simp
  from extract_key_terms_shape [of ?t]
  have "length (extract_key_terms ?t) \<le> 15" "distinct (extract_key_terms ?t)"
    "\<forall>w \<in> set (extract_key_terms ?t).
         w \<notin> set common_words \<and> 3 \<le> length w \<and> (\<forall>c \<in> set w. ascii_lower c)"
    by blast+
  then have "length [''cat'', ''saw''] \<le> 15" "distinct [''cat'', ''saw'']"
    "''cat'' \<notin> set common_words \<and> 3 \<le> length ''cat'' \<and> (\<forall>c \<in> set ''cat''. ascii_lower c)"
    unfolding k by simp_all
  then have "''cat'' \<notin> set common_words \<and> 3 \<le> length ''cat'' \<and> ascii_lower CHR ''c''"
    by simp
  with k show ?thesis by simp
qed

section \<open>Random choice, shuffling and index lookup\<close>

lemma random_choice_Inr:
  "seq \<noteq> [] \<Longrightarrow> random_choice seq g = Inr (seq ! (g 0 mod length seq), \<lambda>k. g (Suc k))"
  by (simp add: random_choice_def randbelow_def)

lemma shuffle_loop_mset:
  "i < length x \<Longrightarrow> mset (fst (shuffle_loop i x g)) = mset x"
proof (induction i arbitrary: x g)
  case 0
  show ?case by simp
next
  case (Suc i)
  let ?j = "g 0 mod (Suc i + 1)"
  let ?x = "x[Suc i := x ! ?j, ?j := x ! Suc i]"
  have "?j < Suc i + 1" by simp
  with Suc.prems have j: "?j < length x" by linarith
  have "mset ?x = mset x"
    using j Suc.prems by (rule mset_swap [of ?j x "Suc i"])
  moreover have "mset (fst (shuffle_loop i ?x (\<lambda>k. g (Suc k)))) = mset ?x"
    using Suc.prems by (intro Suc.IH) simp
  ultimately show ?case by (simp add: randbelow_def Let_def)
qed

lemma random_shuffle_mset: "mset (fst (random_shuffle x g)) = mset x"
proof (cases x)
  case Nil
  then show ?thesis by (simp add: random_shuffle_def)
next
  case (Cons a as)
  then have "length x - 1 < length x" by simp
  then show ?thesis unfolding random_shuffle_def by (rule shuffle_loop_mset)
qed

lemma list_index_Inr:
  "v \<in> set xs \<Longrightarrow> \<exists>k. list_index xs v = Inr k \<and> k < length xs \<and> xs ! k = v"
proof (induction xs)
  case Nil
  then show ?case by simp
next
  case (Cons x xs)
  show ?case
  proof (cases "x = v")
    case True
    then show ?thesis by simp
  next
    case False
    with Cons.prems have "v \<in> set xs" by simp
    from Cons.IH [OF this] obtain k where "list_index xs v = Inr k" "k < length xs" "xs ! k = v"
      by blast
    with False show ?thesis by simp
  qed
qed

lemma options_distinct:
  "distinct [''Related to '' @ t @ '' as mentioned in the context'',
             ''Unrelated concept A about '' @ t1,
             ''Unrelated concept B about '' @ t2,
             ''Unrelated concept C about '' @ t3]"
  by simp

lemma term_question_Inr:
  assumes "i < length key_terms" and "i < length sentences"
  shows "\<exists>st t1 t2 t3 opts k g'.
      term_question i key_terms sentences g =
        Inr (\<lparr>question = st @ '' '' @ key_terms ! i @ ''?'',
              options = opts,
              correct_answer = py_chr (65 + k),
              explanation = ''This question focuses on understanding '' @ key_terms ! i
                              @ '' in the given context.''\<rparr>, g')
      \<and> st \<in> set question_starters
      \<and> t1 \<in> set key_terms \<and> t2 \<in> set key_terms \<and> t3 \<in> set key_terms
      \<and> mset opts = mset [''Related to '' @ key_terms ! i @ '' as mentioned in the context'',
                           ''Unrelated concept A about '' @ t1,
                           ''Unrelated concept B about '' @ t2,
                           ''Unrelated concept C about '' @ t3]
      \<and> k < 4
      \<and> opts ! k = ''Related to '' @ key_terms ! i @ '' as mentioned in the context''"
proof -
  let ?tm = "key_terms ! i"
  let ?correct = "''Related to '' @ ?tm @ '' as mentioned in the context''"
  from assms have ne: "key_terms \<noteq> []" by auto
  have qne: "question_starters \<noteq> []" by (simp add: question_starters_def)
  define st where "st = question_starters ! (g 0 mod length question_starters)"
  define g1 where "g1 = (\<lambda>k. g (Suc k))"
  define t1 where "t1 = key_terms ! (g1 0 mod length key_terms)"
  define g2 where "g2 = (\<lambda>k. g1 (Suc k))"
  define t2 where "t2 = key_terms ! (g2 0 mod length key_terms)"
  define g3 where "g3 = (\<lambda>k. g2 (Suc k))"
  define t3 where "t3 = key_terms ! (g3 0 mod length key_terms)"
  define g4 where "g4 = (\<lambda>k. g3 (Suc k))"
  let ?opts0 = "[?correct, ''Unrelated concept A about '' @ t1,
                 ''Unrelated concept B about '' @ t2, ''Unrelated concept C about '' @ t3]"
  obtain opts g5 where sh: "random_shuffle ?opts0 g4 = (opts, g5)" by fastforce
  have c0: "random_choice question_starters g = Inr (st, g1)"
    unfolding st_def g1_def by (rule random_choice_Inr [OF qne])
  have c1: "distractor_term key_terms ''general topic'' g1 = Inr (t1, g2)"
    unfolding t1_def g2_def distractor_term_def using ne by (simp add: random_choice_Inr)
  have c2: "distractor_term key_terms ''another topic'' g2 = Inr (t2, g3)"
    unfolding t2_def g3_def distractor_term_def using ne by (simp add: random_choice_Inr)
  have c3: "distractor_term key_terms ''different subject'' g3 = Inr (t3, g4)"
    unfolding t3_def g4_def distractor_term_def using ne by (simp add: random_choice_Inr)
  have ms: "mset opts = mset ?opts0"
    using random_shuffle_mset [of ?opts0 g4] by (simp only: sh fst_conv)
  from mset_eq_setD [OF ms] have "?correct \<in> set opts"
    by simp
  from list_index_Inr [OF this] obtain k
    where k: "list_index opts ?correct = Inr k" "k < length opts" "opts ! k = ?correct" by blast
  from mset_eq_length [OF ms] have "length opts = 4"
    by simp
  with k have k4: "k < 4" by simp
  have tq: "term_question i key_terms sentences g =
        Inr (\<lparr>question = st @ '' '' @ ?tm @ ''?'',
              options = opts,
              correct_answer = py_chr (65 + k),
              explanation = ''This question focuses on understanding '' @ ?tm
                              @ '' in the given context.''\<rparr>, g5)"
    unfolding term_question_def getitem_def using assms sh k(1)
    by (simp add: c0 c1 c2 c3 Let_def)
  have "st \<in> set question_starters"
    unfolding st_def using qne by simp
  moreover have "t1 \<in> set key_terms" "t2 \<in> set key_terms" "t3 \<in> set key_terms"
    unfolding t1_def t2_def t3_def using ne by simp_all
  ultimately show ?thesis using tq ms k4 k(3)
    by (intro exI [of _ st] exI [of _ t1] exI [of _ t2] exI [of _ t3] exI [of _ opts]
        exI [of _ k] exI [of _ g5]) (simp only: simp_thms)
qed

section \<open>Multiple-choice questions\<close>

lemma mc_loop_records:
  assumes real: "\<And>i g. i < length key_terms \<Longrightarrow> i < length sentences \<Longrightarrow>
                   \<exists>q g'. term_question i key_terms sentences g = Inr (q, g') \<and> P i q"
      and gen: "\<And>i. \<not> (i < length key_terms \<and> i < length sentences) \<Longrightarrow> P i generic_question"
  shows "\<exists>qs g'. mc_loop idxs key_terms sentences acc g = Inr (acc @ qs, g')
           \<and> length qs = length idxs \<and> (\<forall>j<length idxs. P (idxs ! j) (qs ! j))"
proof (induction idxs arbitrary: acc g)
  case Nil
  show ?case by simp
next
  case (Cons i rest)
  show ?case
  proof (cases "i < length key_terms \<and> i < length sentences")
    case True
    with real [of i g] obtain q g1
      where q: "term_question i key_terms sentences g = Inr (q, g1)" "P i q" by blast
    from Cons.IH [of "acc @ [q]" g1] obtain qs g'
      where r: "mc_loop rest key_terms sentences (acc @ [q]) g1 = Inr ((acc @ [q]) @ qs, g')"
        "length qs = length rest" "\<forall>j<length rest. P (rest ! j) (qs ! j)" by blast
    have "\<forall>j<length (i # rest). P ((i # rest) ! j) ((q # qs) ! j)"
      using q(2) r(3) by (auto simp: nth_Cons split: nat.splits)
    moreover have "mc_loop (i # rest) key_terms sentences acc g = Inr (acc @ q # qs, g')"
      using True q(1) r(1) by simp
    moreover have "length (q # qs) = length (i # rest)" using r(2) by simp
    ultimately show ?thesis by blast
  next
    case False
    from Cons.IH [of "acc @ [generic_question]" g] obtain qs g'
      where r: "mc_loop rest key_terms sentences (acc @ [generic_question]) g
                  = Inr ((acc @ [generic_question]) @ qs, g')"
        "length qs = length rest" "\<forall>j<length rest. P (rest ! j) (qs ! j)" by blast
    have "\<forall>j<length (i # rest). P ((i # rest) ! j) ((generic_question # qs) ! j)"
      using gen [OF False] r(3) by (auto simp: nth_Cons split: nat.splits)
    moreover have "mc_loop (i # rest) key_terms sentences acc g
                     = Inr (acc @ generic_question # qs, g')"
      using False r(1) by auto
    moreover have "length (generic_question # qs) = length (i # rest)" using r(2) by simp
    ultimately show ?thesis by blast
  qed
qed

lemma generate_multiple_choice_records:
  assumes real: "\<And>i g. i < length key_terms \<Longrightarrow> i < length sentences \<Longrightarrow>
                   \<exists>q g'. term_question i key_terms sentences g = Inr (q, g') \<and> P i q"
      and gen: "\<And>i. \<not> (i < length key_terms \<and> i < length sentences) \<Longrightarrow> P i generic_question"
  shows "\<exists>qs g'. generate_multiple_choice text key_terms sentences g = Inr (qs, g')
           \<and> length qs = 3 \<and> (\<forall>i<3. P i (qs ! i))"
proof -
  from mc_loop_records [of key_terms sentences P "[0..<3]" "[]" g, OF real gen]
  obtain qs g' where r: "mc_loop [0..<3] key_terms sentences [] g = Inr ([] @ qs, g')"
    "length qs = length [0..<3]" "\<forall>j<length [0..<3]. P ([0..<3] ! j) (qs ! j)" by blast
  have "\<forall>i<3. P i (qs ! i)"
  proof (intro allI impI)
    fix i :: nat assume i: "i < 3"
    then have "[0..<3] ! i = i" by (metis add_0 nth_upt)
    with r(3) i show "P i (qs ! i)" by (metis diff_zero length_upt)
  qed
  with r(1,2) show ?thesis
    by (simp add: generate_multiple_choice_def)
qed

lemma letter_index_py_chr: "k < 4 \<Longrightarrow> letter_index (py_chr (65 + k)) = k"
  by (simp add: letter_index_def py_chr_def)

lemma py_chr_letters: "k < 4 \<Longrightarrow> py_chr (65 + k) \<in> set [''A'', ''B'', ''C'', ''D'']"
proof -
  assume "k < 4"
  then have "k = 0 \<or> k = 1 \<or> k = 2 \<or> k = 3" by arith
  then show ?thesis by (auto simp: py_chr_def char_of_eq_iff)
qed

lemma list3: "length xs = 3 \<Longrightarrow> xs = [xs ! 0, xs ! 1, xs ! 2]"
  by (auto simp: numeral_3_eq_3 length_Suc_conv)

lemma map3: "length xs = 3 \<Longrightarrow> map f xs = [f (xs ! 0), f (xs ! 1), f (xs ! 2)]"
  by (auto simp: numeral_3_eq_3 length_Suc_conv)

lemma term_question_sentences:
  "i < length ss1 \<Longrightarrow> i < length ss2 \<Longrightarrow>
     term_question i key_terms ss1 g = term_question i key_terms ss2 g"
  by (simp add: term_question_def getitem_def)

lemma mc_loop_sentences:
  "length ss1 = length ss2 \<Longrightarrow>
     mc_loop idxs key_terms ss1 acc g = mc_loop idxs key_terms ss2 acc g"
proof (induction idxs arbitrary: acc g)
  case Nil
  show ?case by simp
next
  case (Cons i rest)
  show ?case
  proof (cases "i < length key_terms \<and> i < length ss1")
    case True
    with Cons.prems have "term_question i key_terms ss1 g = term_question i key_terms ss2 g"
      by (simp add: term_question_sentences)
    with True Cons show ?thesis by (simp split: sum.splits prod.splits)
  next
    case False
    with Cons.prems have "\<not> (i < length key_terms \<and> i < length ss2)" by simp
    with False Cons.IH [OF Cons.prems] show ?thesis by (simp only: mc_loop.simps if_False)
  qed
qed

text \<open>
  Claim C2. Under every sequence of random draws and for every list of key terms and of
  sentences, \<open>generate_multiple_choice\<close> returns three records; each has exactly four
  options, its answer letter is one of \<open>A\<close> to \<open>D\<close>, and the option at the position of
  that letter is the intended correct answer: the sentence \<open>Related to {term} as
  mentioned in the context\<close> in the branch built from a term, the first generic option
  in the fallback branch.
\<close>

theorem correct_letter_points_to_answer:
  "\<exists>qs g'. generate_multiple_choice text key_terms sentences g = Inr (qs, g')
     \<and> length qs = 3
     \<and> (\<forall>i<3. length (options (qs ! i)) = 4
              \<and> correct_answer (qs ! i) \<in> set [''A'', ''B'', ''C'', ''D'']
              \<and> options (qs ! i) ! letter_index (correct_answer (qs ! i))
                  = intended_answer key_terms sentences i)"
proof (rule generate_multiple_choice_records)
  fix i g
  assume i: "i < length key_terms" "i < length sentences"
  from term_question_Inr [OF i, of g] obtain st t1 t2 t3 opts k g' where
    tq: "term_question i key_terms sentences g =
        Inr (\<lparr>question = st @ '' '' @ key_terms ! i @ ''?'',
              options = opts,
              correct_answer = py_chr (65 + k),
              explanation = ''This question focuses on understanding '' @ key_terms ! i
                              @ '' in the given context.''\<rparr>, g')"
    and ms: "mset opts = mset [''Related to '' @ key_terms ! i @ '' as mentioned in the context'',
                           ''Unrelated concept A about '' @ t1,
                           ''Unrelated concept B about '' @ t2,
                           ''Unrelated concept C about '' @ t3]"
    and k: "k < 4" "opts ! k = ''Related to '' @ key_terms ! i @ '' as mentioned in the context''"
    by blast
  from mset_eq_length [OF ms] have "length opts = 4" by simp
  with k i tq letter_index_py_chr [OF k(1)] py_chr_letters [OF k(1)]
  show "\<exists>q g'. term_question i key_terms sentences g = Inr (q, g')
          \<and> length (options q) = 4
          \<and> correct_answer q \<in> set [''A'', ''B'', ''C'', ''D'']
          \<and> options q ! letter_index (correct_answer q) = intended_answer key_terms sentences i"
    by (simp add: intended_answer_def)
next
  fix i
  assume "\<not> (i < length key_terms \<and> i < length sentences)"
  then show "length (options generic_question) = 4
          \<and> correct_answer generic_question \<in> set [''A'', ''B'', ''C'', ''D'']
          \<and> options generic_question ! letter_index (correct_answer generic_question)
               = intended_answer key_terms sentences i"
    by (simp add: intended_answer_def generic_question_def letter_index_def)
qed

text \<open>
  Witness: two key terms and one sentence, so that index 0 is built from \<open>cat\<close> and
  indices 1 and 2 are the fallback.
\<close>

theorem correct_letter_points_to_answer_witness:
  "(case generate_multiple_choice [] [''cat'', ''dog''] [''a b c d e''] (\<lambda>k. k) of
      Inl e \<Rightarrow> []
    | Inr (qs, g') \<Rightarrow> map (\<lambda>q. (length (options q), options q ! letter_index (correct_answer q))) qs)
   = [(4, ''Related to cat as mentioned in the context''),
      (4, ''A main idea from the provided material''),
      (4, ''A main idea from the provided material'')]"
proof -
  let ?kt = "[''cat'', ''dog'']" and ?ss = "[''a b c d e'']"
  from correct_letter_points_to_answer [of "[]" ?kt ?ss "\<lambda>k. k"]
  obtain qs g' where r: "generate_multiple_choice [] ?kt ?ss (\<lambda>k. k) = Inr (qs, g')"
    "length qs = 3"
    "\<forall>i<3. length (options (qs ! i)) = 4
              \<and> correct_answer (qs ! i) \<in> set [''A'', ''B'', ''C'', ''D'']
              \<and> options (qs ! i) ! letter_index (correct_answer (qs ! i))
                  = intended_answer ?kt ?ss i" by blast
  from r(3) have "length (options (qs ! 0)) = 4" "length (options (qs ! 1)) = 4"
    "length (options (qs ! 2)) = 4"
    "options (qs ! 0) ! letter_index (correct_answer (qs ! 0)) = intended_answer ?kt ?ss 0"
    "options (qs ! 1) ! letter_index (correct_answer (qs ! 1)) = intended_answer ?kt ?ss 1"
    "options (qs ! 2) ! letter_index (correct_answer (qs ! 2)) = intended_answer ?kt ?ss 2"
    by simp_all
  then show ?thesis
    by (simp add: r(1) map3 [OF r(2)] intended_answer_def)
qed

text \<open>
  Claim C7. For each index \<open>i\<close> of 0, 1, 2: when \<open>i\<close> is a valid index of both the
  key-term list and the sentence list, the record is built from \<open>key_terms[i]\<close>, its
  question being one of the 8 question starters followed by a space, the term and
  \<open>?\<close>; otherwise it is the fixed generic record, whose answer is \<open>A\<close>. So index 2 is
  generic for 3 terms and 2 sentences, and all three records are the generic one for an
  empty key-term list.
\<close>

theorem mc_records_by_index:
  "length question_starters = 8
   \<and> correct_answer generic_question = ''A''
   \<and> (\<exists>qs g'. generate_multiple_choice text key_terms sentences g = Inr (qs, g')
        \<and> length qs = 3
        \<and> (\<forall>i<3. if i < length key_terms \<and> i < length sentences
                  then (\<exists>starter \<in> set question_starters.
                          question (qs ! i) = starter @ '' '' @ key_terms ! i @ ''?'')
                       \<and> explanation (qs ! i)
                           = ''This question focuses on understanding '' @ key_terms ! i
                               @ '' in the given context.''
                  else qs ! i = generic_question)
        \<and> (length key_terms = 3 \<and> length sentences = 2 \<longrightarrow> qs ! 2 = generic_question)
        \<and> (key_terms = [] \<longrightarrow> qs = [generic_question, generic_question, generic_question]))"
proof -
  let ?P = "\<lambda>i q. if i < length key_terms \<and> i < length sentences
                  then (\<exists>starter \<in> set question_starters.
                          question q = starter @ '' '' @ key_terms ! i @ ''?'')
                       \<and> explanation q
                           = ''This question focuses on understanding '' @ key_terms ! i
                               @ '' in the given context.''
                  else q = generic_question"
  have "\<exists>qs g'. generate_multiple_choice text key_terms sentences g = Inr (qs, g')
           \<and> length qs = 3 \<and> (\<forall>i<3. ?P i (qs ! i))"
  proof (rule generate_multiple_choice_records)
    fix i g
    assume i: "i < length key_terms" "i < length sentences"
    from term_question_Inr [OF i, of g] obtain st opts k g' where
      "term_question i key_terms sentences g =
        Inr (\<lparr>question = st @ '' '' @ key_terms ! i @ ''?'',
              options = opts,
              correct_answer = py_chr (65 + k),
              explanation = ''This question focuses on understanding '' @ key_terms ! i
                              @ '' in the given context.''\<rparr>, g')"
      "st \<in> set question_starters"
      by blast
    with i show "\<exists>q g'. term_question i key_terms sentences g = Inr (q, g') \<and> ?P i q"
      by auto
  next
    fix i
    assume n: "\<not> (i < length key_terms \<and> i < length sentences)"
    show "?P i generic_question" by (simp only: n if_False)
  qed
  then obtain qs g' where r: "generate_multiple_choice text key_terms sentences g = Inr (qs, g')"
    "length qs = 3" "\<forall>i<3. ?P i (qs ! i)" by blast
  have a: "length key_terms = 3 \<and> length sentences = 2 \<longrightarrow> qs ! 2 = generic_question"
  proof
    assume "length key_terms = 3 \<and> length sentences = 2"
    then have n: "\<not> (2 < length key_terms \<and> 2 < length sentences)" by simp
    have "(2::nat) < 3" by simp
    with spec [OF r(3), of 2] have "?P 2 (qs ! 2)" by (rule mp)
    then show "qs ! 2 = generic_question" by (simp only: n if_False)
  qed
  have b: "key_terms = [] \<longrightarrow> qs = [generic_question, generic_question, generic_question]"
  proof
    assume "key_terms = []"
    with r(3) have "qs ! 0 = generic_question" "qs ! 1 = generic_question"
      "qs ! 2 = generic_question" by simp_all
    with list3 [OF r(2)] show "qs = [generic_question, generic_question, generic_question]"
      by simp
  qed
  have "length question_starters = 8" by (simp add: question_starters_def)
  moreover have "correct_answer generic_question = ''A''" by (simp add: generic_question_def)
  ultimately show ?thesis using r a b by blast
qed

text \<open>
  Witness: three terms with two sentences, and no term at all.
\<close>

theorem mc_records_by_index_witness:
  "(\<exists>qs g'. generate_multiple_choice [] [''cat'', ''dog'', ''emu''] [''a b c d e'', ''f g h i j''] (\<lambda>k. k)
              = Inr (qs, g')
        \<and> (\<exists>starter \<in> set question_starters. question (qs ! 0) = starter @ '' cat?'')
        \<and> explanation (qs ! 1) = ''This question focuses on understanding dog in the given context.''
        \<and> qs ! 2 = generic_question)
   \<and> (\<exists>g'. generate_multiple_choice [] [] [''a b c d e''] (\<lambda>k. k)
              = Inr ([generic_question, generic_question, generic_question], g'))"
proof -
  let ?kt = "[''cat'', ''dog'', ''emu'']" and ?ss = "[''a b c d e'', ''f g h i j'']"
  from mc_records_by_index [of "[]" ?kt ?ss "\<lambda>k. k"]
  obtain qs g' where r: "generate_multiple_choice [] ?kt ?ss (\<lambda>k. k) = Inr (qs, g')"
    and all: "\<forall>i<3. if i < length ?kt \<and> i < length ?ss
                  then (\<exists>starter \<in> set question_starters.
                          question (qs ! i) = starter @ '' '' @ ?kt ! i @ ''?'')
                       \<and> explanation (qs ! i)
                           = ''This question focuses on understanding '' @ ?kt ! i
                               @ '' in the given context.''
                  else qs ! i = generic_question"
    and two: "length ?kt = 3 \<and> length ?ss = 2 \<longrightarrow> qs ! 2 = generic_question"
    by blast
  from two have q2: "qs ! 2 = generic_question" by simp
  have "(0::nat) < 3" by simp
  with spec [OF all, of 0] have "if 0 < length ?kt \<and> 0 < length ?ss
                  then (\<exists>starter \<in> set question_starters.
                          question (qs ! 0) = starter @ '' '' @ ?kt ! 0 @ ''?'')
                       \<and> explanation (qs ! 0)
                           = ''This question focuses on understanding '' @ ?kt ! 0
                               @ '' in the given context.''
                  else qs ! 0 = generic_question" by (rule mp)
  then have q0: "\<exists>starter \<in> set question_starters. question (qs ! 0) = starter @ '' cat?''"
    by simp
  have "(1::nat) < 3" by simp
  with spec [OF all, of 1] have "if 1 < length ?kt \<and> 1 < length ?ss
                  then (\<exists>starter \<in> set question_starters.
                          question (qs ! 1) = starter @ '' '' @ ?kt ! 1 @ ''?'')
                       \<and> explanation (qs ! 1)
                           = ''This question focuses on understanding '' @ ?kt ! 1
                               @ '' in the given context.''
                  else qs ! 1 = generic_question" by (rule mp)
  then have q1: "explanation (qs ! 1) = ''This question focuses on understanding dog in the given context.''"
    by simp
  from mc_records_by_index [of "[]" "[]" "[''a b c d e'']" "\<lambda>k. k"]
  have e: "\<exists>g'. generate_multiple_choice [] [] [''a b c d e''] (\<lambda>k. k)
              = Inr ([generic_question, generic_question, generic_question], g')"
    by blast
  from r q0 q1 q2 e show ?thesis by blast
qed

text \<open>
  Claim C9. In every record built from a term the four options are pairwise distinct,
  for every key-term list and every random draw, so the correct-answer text occurs
  exactly once among them.
\<close>

theorem term_options_distinct:
  "\<exists>qs g'. generate_multiple_choice text key_terms sentences g = Inr (qs, g')
     \<and> (\<forall>i<3. i < length key_terms \<and> i < length sentences \<longrightarrow>
           distinct (options (qs ! i))
           \<and> count_list (options (qs ! i))
               (''Related to '' @ key_terms ! i @ '' as mentioned in the context'') = 1)"
proof -
  let ?P = "\<lambda>i q. i < length key_terms \<and> i < length sentences \<longrightarrow>
           distinct (options q)
           \<and> count_list (options q)
               (''Related to '' @ key_terms ! i @ '' as mentioned in the context'') = 1"
  have "\<exists>qs g'. generate_multiple_choice text key_terms sentences g = Inr (qs, g')
           \<and> length qs = 3 \<and> (\<forall>i<3. ?P i (qs ! i))"
  proof (rule generate_multiple_choice_records)
    fix i g
    assume i: "i < length key_terms" "i < length sentences"
    let ?c = "''Related to '' @ key_terms ! i @ '' as mentioned in the context''"
    from term_question_Inr [OF i, of g] obtain st t1 t2 t3 opts k g' where
      tq: "term_question i key_terms sentences g =
        Inr (\<lparr>question = st @ '' '' @ key_terms ! i @ ''?'',
              options = opts,
              correct_answer = py_chr (65 + k),
              explanation = ''This question focuses on understanding '' @ key_terms ! i
                              @ '' in the given context.''\<rparr>, g')"
      and ms: "mset opts = mset [?c,
                           ''Unrelated concept A about '' @ t1,
                           ''Unrelated concept B about '' @ t2,
                           ''Unrelated concept C about '' @ t3]"
      by blast
    let ?o = "[?c, ''Unrelated concept A about '' @ t1,
               ''Unrelated concept B about '' @ t2, ''Unrelated concept C about '' @ t3]"
    have d: "distinct opts"
      using mset_eq_imp_distinct_iff [OF ms] options_distinct [of "key_terms ! i" t1 t2 t3]
      by blast
    have "count_list opts ?c = count (mset opts) ?c" by (simp only: count_mset)
    also have "\<dots> = count (mset ?o) ?c" by (simp only: ms)
    also have "\<dots> = 1" by simp
    finally have "count_list opts ?c = 1" .
    with d tq show "\<exists>q g'. term_question i key_terms sentences g = Inr (q, g') \<and> ?P i q"
      by simp
  next
    fix i
    assume "\<not> (i < length key_terms \<and> i < length sentences)"
    then show "?P i generic_question" by blast
  qed
  then show ?thesis by blast
qed

text \<open>
  Witness: a key-term list that repeats its only word, so that every distractor is about
  the term of the question itself.
\<close>

theorem term_options_distinct_witness:
  "\<exists>qs g'. generate_multiple_choice [] [''cat'', ''cat''] [''a b c d e''] (\<lambda>k. k) = Inr (qs, g')
     \<and> distinct (options (qs ! 0))
     \<and> count_list (options (qs ! 0)) ''Related to cat as mentioned in the context'' = 1"
proof -
  let ?kt = "[''cat'', ''cat'']" and ?ss = "[''a b c d e'']"
  from term_options_distinct [of "[]" ?kt ?ss "\<lambda>k. k"]
  obtain qs g' where r: "generate_multiple_choice [] ?kt ?ss (\<lambda>k. k) = Inr (qs, g')"
    and all: "\<forall>i<3. i < length ?kt \<and> i < length ?ss \<longrightarrow>
           distinct (options (qs ! i))
           \<and> count_list (options (qs ! i))
               (''Related to '' @ ?kt ! i @ '' as mentioned in the context'') = 1"
    by blast
  have "(0::nat) < 3" by simp
  with spec [OF all, of 0] have "0 < length ?kt \<and> 0 < length ?ss \<longrightarrow>
           distinct (options (qs ! 0))
           \<and> count_list (options (qs ! 0))
               (''Related to '' @ ?kt ! 0 @ '' as mentioned in the context'') = 1" by (rule mp)
  then have "distinct (options (qs ! 0))
     \<and> count_list (options (qs ! 0)) ''Related to cat as mentioned in the context'' = 1"
    by simp
  with r show ?thesis by blast
qed

text \<open>
  Claim C10. The result of \<open>generate_multiple_choice\<close> depends on the sentence list
  through its length only: for the same key terms and the same random draws, two
  sentence lists of equal length give the same records.
\<close>

theorem sentences_only_by_length:
  "length sentences1 = length sentences2 \<Longrightarrow>
     generate_multiple_choice text key_terms sentences1 g
       = generate_multiple_choice text key_terms sentences2 g"
  unfolding generate_multiple_choice_def by (rule mc_loop_sentences)

theorem sentences_only_by_length_witness:
  "length [''One two three four five''] = length [''v w x y z'']
   \<and> generate_multiple_choice [] [''cat''] [''One two three four five''] (\<lambda>k. k)
       = generate_multiple_choice [] [''cat''] [''v w x y z''] (\<lambda>k. k)"
proof -
  have l: "length [''One two three four five''] = length [''v w x y z'']" by simp
  from sentences_only_by_length [OF l] l show ?thesis by blast
qed

section \<open>Essay questions and the whole pipeline\<close>

lemma str_nat_1: "str_nat (Suc 0) = ''1''" "str_nat 1 = ''1''"
  by (subst str_nat.simps, simp add: char_of_eq_iff)+

lemma str_nat_2: "str_nat (Suc (Suc 0)) = ''2''" "str_nat 2 = ''2''"
  by (subst str_nat.simps, simp add: char_of_eq_iff)+

lemma essay_loop_spec:
  "\<exists>qs g'. essay_loop (enumerate n ts) acc g = Inr (acc @ qs, g')
      \<and> length qs = length ts
      \<and> (\<forall>j<length ts. prefix (''Essay Question '' @ str_nat (n + j + 1) @ '': '') (qs ! j))"
proof (induction ts arbitrary: n acc g)
  case Nil
  show ?case by simp
next
  case (Cons t ts)
  have "essay_prompts \<noteq> []" by (simp add: essay_prompts_def)
  from random_choice_Inr [OF this, of g] obtain p g1
    where c: "random_choice essay_prompts g = Inr (p, g1)" by blast
  let ?e = "''Essay Question '' @ str_nat (n + 1) @ '': '' @ format_str p t"
  from Cons.IH [of "Suc n" "acc @ [?e]" g1] obtain qs g'
    where r: "essay_loop (enumerate (Suc n) ts) (acc @ [?e]) g1 = Inr ((acc @ [?e]) @ qs, g')"
      "length qs = length ts"
      "\<forall>j<length ts. prefix (''Essay Question '' @ str_nat (Suc n + j + 1) @ '': '') (qs ! j)"
    by blast
  have "essay_loop (enumerate n (t # ts)) acc g = Inr (acc @ ?e # qs, g')"
    using c r(1) by (simp add: Let_def)
  moreover have "length (?e # qs) = length (t # ts)" using r(2) by simp
  moreover have "\<forall>j<length (t # ts).
      prefix (''Essay Question '' @ str_nat (n + j + 1) @ '': '') ((?e # qs) ! j)"
  proof (intro allI impI)
    fix j assume j: "j < length (t # ts)"
    show "prefix (''Essay Question '' @ str_nat (n + j + 1) @ '': '') ((?e # qs) ! j)"
    proof (cases j)
      case 0
      then show ?thesis by simp
    next
      case (Suc j')
      with j r(3) show ?thesis by simp
    qed
  qed
  ultimately show ?case by blast
qed

lemma essay_fill_two: "length qs = 2 \<Longrightarrow> essay_fill qs = qs"
  by (subst essay_fill.simps) simp

lemma essay_fill_one:
  "length qs = 1 \<Longrightarrow> essay_fill qs = qs @ [''Essay Question 2: '' @ generic_essay]"
  by (subst essay_fill.simps) (simp add: Let_def essay_fill_two str_nat_2)

lemma essay_fill_nil:
  "essay_fill [] = [''Essay Question 1: '' @ generic_essay, ''Essay Question 2: '' @ generic_essay]"
  by (subst essay_fill.simps) (simp add: Let_def essay_fill_one str_nat_1)

lemma generate_essay_questions_two:
  "\<exists>qs g'. generate_essay_questions text key_terms g = Inr (qs, g')
      \<and> length qs = 2
      \<and> prefix ''Essay Question 1: '' (qs ! 0)
      \<and> prefix ''Essay Question 2: '' (qs ! 1)"
proof -
  define ts where "ts = take 2 (if length key_terms \<ge> 3 then take 3 key_terms else key_terms)"
  have le: "length ts \<le> 2" by (simp add: ts_def)
  from essay_loop_spec [of 0 ts "[]" g] obtain qs g'
    where r: "essay_loop (enumerate 0 ts) [] g = Inr (qs, g')" "length qs = length ts"
      "\<forall>j<length ts. prefix (''Essay Question '' @ str_nat (0 + j + 1) @ '': '') (qs ! j)"
    by auto
  have g: "generate_essay_questions text key_terms g = Inr (essay_fill qs, g')"
    using r(1) by (simp add: generate_essay_questions_def Let_def ts_def)
  from le have "length ts = 0 \<or> length ts = 1 \<or> length ts = 2" by arith
  then have "length (essay_fill qs) = 2
      \<and> prefix ''Essay Question 1: '' (essay_fill qs ! 0)
      \<and> prefix ''Essay Question 2: '' (essay_fill qs ! 1)"
  proof (elim disjE)
    assume "length ts = 0"
    with r(2) have "qs = []" by simp
    then show ?thesis by (simp add: essay_fill_nil)
  next
    assume l: "length ts = 1"
    with r(2) have l1: "length qs = 1" by simp
    from r(3) l have "prefix (''Essay Question '' @ str_nat 1 @ '': '') (qs ! 0)" by simp
    then have "prefix ''Essay Question 1: '' (qs ! 0)" by (simp add: str_nat_1)
    with l1 show ?thesis by (simp add: essay_fill_one nth_append)
  next
    assume l: "length ts = 2"
    with r(2) have l2: "length qs = 2" by simp
    from r(3) l have "prefix (''Essay Question '' @ str_nat 1 @ '': '') (qs ! 0)"
      "prefix (''Essay Question '' @ str_nat 2 @ '': '') (qs ! 1)"
      by (simp_all add: numeral_2_eq_2)
    then have "prefix ''Essay Question 1: '' (qs ! 0)" "prefix ''Essay Question 2: '' (qs ! 1)"
      by (simp_all add: str_nat_1 str_nat_2)
    with l2 show ?thesis by (simp add: essay_fill_two)
  qed
  with g show ?thesis by blast
qed

lemma generate_multiple_choice_three:
  "\<exists>qs g'. generate_multiple_choice text key_terms sentences g = Inr (qs, g') \<and> length qs = 3"
proof -
  have "\<exists>qs g'. generate_multiple_choice text key_terms sentences g = Inr (qs, g')
           \<and> length qs = 3 \<and> (\<forall>i<3. (\<lambda>i q. True) i (qs ! i))"
  proof (rule generate_multiple_choice_records)
    fix i g
    assume i: "i < length key_terms" "i < length sentences"
    from term_question_Inr [OF i, of g]
    show "\<exists>q g'. term_question i key_terms sentences g = Inr (q, g') \<and> True" by blast
  qed simp
  then show ?thesis by blast
qed

text \<open>
  A run of the whole pipeline on the draws 0, 1, 2, ...: the key terms are \<open>cat\<close>,
  \<open>sat\<close>, \<open>one\<close>, \<open>mat\<close>, one sentence has five words or more, so one
  question is built from a term and two are generic.
\<close>

lemma generate_content_example:
  "(case generate_content ''Cat sat. A cat sat on one mat'' (\<lambda>k. k) of
      Inl e \<Rightarrow> None
    | Inr ((essay_questions, mc_questions), g') \<Rightarrow> Some (essay_questions, mc_questions))
   = Some
      ([''Essay Question 1: Analyze and discuss the key concepts presented in the text regarding cat. Provide specific examples and explain their significance.'',
        ''Essay Question 2: Compare and contrast different aspects of sat mentioned in the document. How do these elements relate to each other?''],
       [\<lparr>question = ''Why is cat?'',
          options = [''Unrelated concept C about sat'',
                     ''Related to cat as mentioned in the context'',
                     ''Unrelated concept A about mat'',
                     ''Unrelated concept B about cat''],
          correct_answer = ''B'',
          explanation = ''This question focuses on understanding cat in the given context.''\<rparr>,
        generic_question, generic_question])"
  by code_simp

text \<open>
  Claim C1. For every input whose trimmed form is not empty, \<open>generate_content\<close>
  returns exactly 2 essay questions, the first prefixed \<open>Essay Question 1: \<close> and the
  second \<open>Essay Question 2: \<close>, and exactly 3 multiple-choice records; for every input
  whose trimmed form is empty it returns two empty lists.
\<close>

theorem generate_content_shape:
  "(str_strip input_text \<noteq> [] \<longrightarrow>
      (\<exists>essay_questions mc_questions g'.
          generate_content input_text g = Inr ((essay_questions, mc_questions), g')
          \<and> length essay_questions = 2
          \<and> prefix ''Essay Question 1: '' (essay_questions ! 0)
          \<and> prefix ''Essay Question 2: '' (essay_questions ! 1)
          \<and> length mc_questions = 3))
   \<and> (str_strip input_text = [] \<longrightarrow> generate_content input_text g = Inr (([], []), g))"
proof (intro conjI impI)
  assume ne: "str_strip input_text \<noteq> []"
  from generate_essay_questions_two [of input_text "extract_key_terms input_text" g]
  obtain es g1 where e: "generate_essay_questions input_text (extract_key_terms input_text) g = Inr (es, g1)"
    "length es = 2" "prefix ''Essay Question 1: '' (es ! 0)" "prefix ''Essay Question 2: '' (es ! 1)"
    by blast
  from generate_multiple_choice_three
    [of input_text "extract_key_terms input_text" "extract_sentences input_text" g1]
  obtain ms g2 where m: "generate_multiple_choice input_text (extract_key_terms input_text)
       (extract_sentences input_text) g1 = Inr (ms, g2)" "length ms = 3" by blast
  have "generate_content input_text g = Inr ((es, ms), g2)"
    using ne e(1) m(1) by (simp add: generate_content_def Let_def)
  with e m(2) show "\<exists>essay_questions mc_questions g'.
          generate_content input_text g = Inr ((essay_questions, mc_questions), g')
          \<and> length essay_questions = 2
          \<and> prefix ''Essay Question 1: '' (essay_questions ! 0)
          \<and> prefix ''Essay Question 2: '' (essay_questions ! 1)
          \<and> length mc_questions = 3" by blast
next
  assume "str_strip input_text = []"
  then show "generate_content input_text g = Inr (([], []), g)"
    by (simp add: generate_content_def)
qed

theorem generate_content_shape_witness:
  "(\<exists>essay_questions mc_questions g'.
      generate_content ''Cat sat'' (\<lambda>k. k) = Inr ((essay_questions, mc_questions), g')
      \<and> length essay_questions = 2
      \<and> prefix ''Essay Question 1: '' (essay_questions ! 0)
      \<and> prefix ''Essay Question 2: '' (essay_questions ! 1)
      \<and> length mc_questions = 3)
   \<and> generate_content ''  '' (\<lambda>k. k) = Inr (([], []), \<lambda>k. k)"
proof -
  have a: "str_strip ''Cat sat'' \<noteq> []" by code_simp
  have b: "str_strip ''  '' = []" by code_simp
  from generate_content_shape [of "''Cat sat''" "\<lambda>k. k"] a
    generate_content_shape [of "''  ''" "\<lambda>k. k"] b
  show ?thesis by blast
qed

text \<open>
  Claim C6. \<open>generate_content\<close> is total: for every input string and every sequence of
  random draws it returns a result and raises no exception. A \<open>random.choice\<close> on an
  empty list, an index out of range and a failed \<open>index\<close> lookup are errors of the model,
  so none of them happens.
\<close>

theorem generate_content_total:
  "\<exists>essay_questions mc_questions g'.
      generate_content input_text g = Inr ((essay_questions, mc_questions), g')"
proof (cases "str_strip input_text = []")
  case True
  then show ?thesis by (simp add: generate_content_def)
next
  case False
  from generate_essay_questions_two [of input_text "extract_key_terms input_text" g]
  obtain es g1 where e: "generate_essay_questions input_text (extract_key_terms input_text) g = Inr (es, g1)"
    by blast
  from generate_multiple_choice_three
    [of input_text "extract_key_terms input_text" "extract_sentences input_text" g1]
  obtain ms g2 where m: "generate_multiple_choice input_text (extract_key_terms input_text)
       (extract_sentences input_text) g1 = Inr (ms, g2)" by blast
  from False e m show ?thesis by (simp add: generate_content_def Let_def)
qed

end
